theory Spec2Isabelle
  imports Main "HOL-Library.Word"
begin

unbundle bit_operations_syntax

section \<open>The OpenTitan USB device driver (class OpenTitanUsbdev)\<close>

text \<open>
  The driver is a C++ class laid over a memory-mapped register block: every member is a
  32-bit register, "defined sequentially with no gaps in memory", and the packet buffer
  memory starts at byte offset 0x800 of the same block. The model keeps the block as the
  driver sees it, a store of 32-bit words addressed by the byte offset of the word, so
  that an access through an index (\<open>configIn[ep]\<close>) or through a computed pointer
  (\<open>buffers(bufferId)\<close>) lands where the machine puts it.
\<close>

type_synonym u8 = "8 word"
type_synonym u16 = "16 word"
type_synonym u32 = "32 word"
type_synonym u64 = "64 word"

subsection \<open>Constants and register layout\<close>

definition MaxPacketLen :: nat where "MaxPacketLen = 64"
definition NumBuffers :: nat where "NumBuffers = 32"
definition MaxEndpoints :: nat where "MaxEndpoints = 12"
definition BufferStartAddress :: nat where "BufferStartAddress = 0x800"

text \<open>Byte offsets of the registers, in declaration order, four bytes each.\<close>

definition interruptState :: nat where "interruptState = 0x00"
definition interruptEnable :: nat where "interruptEnable = 0x04"
definition interruptTest :: nat where "interruptTest = 0x08"
definition alertTest :: nat where "alertTest = 0x0c"
definition usbControl :: nat where "usbControl = 0x10"
definition endpointOutEnable :: nat where "endpointOutEnable = 0x14"
definition endpointInEnable :: nat where "endpointInEnable = 0x18"
definition usbStatus :: nat where "usbStatus = 0x1c"
definition availableOutBuffer :: nat where "availableOutBuffer = 0x20"
definition availableSetupBuffer :: nat where "availableSetupBuffer = 0x24"
definition receiveBuffer :: nat where "receiveBuffer = 0x28"
definition receiveEnableSetup :: nat where "receiveEnableSetup = 0x2c"
definition receiveEnableOut :: nat where "receiveEnableOut = 0x30"
definition setNotAcknowledgeOut :: nat where "setNotAcknowledgeOut = 0x34"
definition inSent :: nat where "inSent = 0x38"
definition outStall :: nat where "outStall = 0x3c"
definition inStall :: nat where "inStall = 0x40"

text \<open>
  \<open>uint32_t configIn[MaxEndpoints]\<close> occupies 0x44 up to (not including) 0x74. The
  element address is computed from the index without a bounds check, as the machine does.
\<close>

definition configIn :: "u8 \<Rightarrow> nat" where
  "configIn ep = 0x44 + 4 * unat ep"

definition configInEnd :: nat where "configInEnd = 0x44 + 4 * MaxEndpoints"

definition outIsochronous :: nat where "outIsochronous = 0x74"
definition inIsochronous :: nat where "inIsochronous = 0x78"
definition outDataToggle :: nat where "outDataToggle = 0x7c"
definition inDataToggle :: nat where "inDataToggle = 0x80"
definition phyPinsSense :: nat where "phyPinsSense = 0x84"
definition phyPinsDrive :: nat where "phyPinsDrive = 0x88"
definition phyConfig :: nat where "phyConfig = 0x8c"

subsection \<open>Register fields\<close>

text \<open>enum class UsbControlField\<close>

definition UsbControl_Enable :: u32 where "UsbControl_Enable = push_bit 0 1"
definition UsbControl_ResumeLinkActive :: u32 where "UsbControl_ResumeLinkActive = push_bit 1 1"
definition UsbControl_DeviceAddress :: u32 where "UsbControl_DeviceAddress = push_bit 16 0x7F"

text \<open>enum class UsbStatusField (the fields the driver reads)\<close>

definition UsbStatus_AvailableOutFull :: u32 where "UsbStatus_AvailableOutFull = push_bit 23 1"
definition UsbStatus_ReceiveDepth :: u32 where "UsbStatus_ReceiveDepth = push_bit 24 0xF"
definition UsbStatus_AvailableSetupFull :: u32 where "UsbStatus_AvailableSetupFull = push_bit 30 1"

text \<open>enum class ReceiveBufferField\<close>

definition ReceiveBuffer_BufferId :: u32 where "ReceiveBuffer_BufferId = push_bit 0 0x1F"
definition ReceiveBuffer_Size :: u32 where "ReceiveBuffer_Size = push_bit 8 0x7F"
definition ReceiveBuffer_Setup :: u32 where "ReceiveBuffer_Setup = push_bit 19 1"
definition ReceiveBuffer_EndpointId :: u32 where "ReceiveBuffer_EndpointId = push_bit 20 0xF"

text \<open>enum class ConfigInField\<close>

definition ConfigIn_BufferId :: u32 where "ConfigIn_BufferId = push_bit 0 0x1F"
definition ConfigIn_Size :: u32 where "ConfigIn_Size = push_bit 8 0x7F"
definition ConfigIn_Sending :: u32 where "ConfigIn_Sending = push_bit 29 1"
definition ConfigIn_Pending :: u32 where "ConfigIn_Pending = push_bit 30 1"
definition ConfigIn_Ready :: u32 where "ConfigIn_Ready = push_bit 31 1"

text \<open>enum class PhyConfigField\<close>

definition PhyConfig_UseDifferentialReceiver :: u32 where
  "PhyConfig_UseDifferentialReceiver = push_bit 0 1"

subsection \<open>The device as the driver sees it\<close>

text \<open>
  The members are accessed through a \<open>volatile\<close> object, so every register access of the
  source is an access of the device. The state holds the words of the block (\<open>mmio\<close>,
  registers and packet buffer memory) and the register accesses that have side effects
  in the device, in program order (\<open>accesses\<close>): every register store, and the load of the
  receive FIFO register, which pops it ("FIFO, single word read required"). Loads of the
  other registers have no side effect and are not recorded.
\<close>

datatype access = Store nat u32 | Load nat

record usbdev =
  mmio :: "nat \<Rightarrow> u32"
  accesses :: "access list"

text \<open>
  A register store. The registers hold what is stored, except \<open>inSent\<close>: the source
  acknowledges a sent packet with \<open>inSent = epMask\<close> under the comment "Clear the in_sent
  bit for this specific endpoint", that is, the register clears the bits written as one
  and keeps the others.
\<close>

definition store :: "nat \<Rightarrow> u32 \<Rightarrow> usbdev \<Rightarrow> usbdev" where
  "store a v s =
     s\<lparr>mmio := (mmio s)(a := (if a = inSent then mmio s a AND NOT v else v)),
       accesses := accesses s @ [Store a v]\<rparr>"

text \<open>
  A store to one of the two available-buffer FIFO registers hands a buffer to the device,
  which updates the depth and full flags of \<open>usbStatus\<close>. That reaction is hardware and is
  a parameter of the model: \<open>fifo a v st\<close> is the status word after \<open>v\<close> is stored to
  register \<open>a\<close> while the status word is \<open>st\<close>.
\<close>

type_synonym fifo = "nat \<Rightarrow> u32 \<Rightarrow> u32 \<Rightarrow> u32"

definition offer :: "fifo \<Rightarrow> nat \<Rightarrow> u32 \<Rightarrow> usbdev \<Rightarrow> usbdev" where
  "offer hw a v s =
     s\<lparr>mmio := (mmio s)(a := v, usbStatus := hw a v (mmio s usbStatus)),
       accesses := accesses s @ [Store a v]\<rparr>"

text \<open>The load of the receive FIFO register.\<close>

definition pop_receive :: "usbdev \<Rightarrow> u32 \<times> usbdev" where
  "pop_receive s = (mmio s receiveBuffer, s\<lparr>accesses := accesses s @ [Load receiveBuffer]\<rparr>)"

subsection \<open>supply_buffers and init\<close>

text \<open>
  \<open>buf_avail\<close> is a \<open>uint64_t\<close>, the masks \<open>1U << buf_num\<close> and \<open>~(1U << buf_num)\<close> are
  \<open>unsigned int\<close> (32 bits) and are zero-extended when combined with it. The loop is the
  recursion on \<open>buf_num\<close>; \<open>break\<close> returns the bitmap as it stands.
\<close>

function supply_loop :: "fifo \<Rightarrow> nat \<Rightarrow> usbdev \<Rightarrow> u64 \<Rightarrow> u64 \<times> usbdev" where
  "supply_loop hw buf_num s buf_avail =
     (if buf_num < NumBuffers then
        if buf_avail AND ucast (push_bit buf_num (1 :: u32)) \<noteq> 0 then
          if mmio s usbStatus AND UsbStatus_AvailableSetupFull \<noteq> 0 then
            if mmio s usbStatus AND UsbStatus_AvailableOutFull \<noteq> 0 then
              (buf_avail, s)
            else
              supply_loop hw (buf_num + 1) (offer hw availableOutBuffer (of_nat buf_num) s)
                (buf_avail AND ucast (NOT (push_bit buf_num (1 :: u32))))
          else
            supply_loop hw (buf_num + 1) (offer hw availableSetupBuffer (of_nat buf_num) s)
              (buf_avail AND ucast (NOT (push_bit buf_num (1 :: u32))))
        else supply_loop hw (buf_num + 1) s buf_avail
      else (buf_avail, s))"
  by pat_completeness auto
termination
  by (relation "measure (\<lambda>(hw, buf_num, s, buf_avail). NumBuffers - buf_num)") auto

definition supply_buffers :: "fifo \<Rightarrow> usbdev \<Rightarrow> u64 \<Rightarrow> u64 \<times> usbdev" where
  "supply_buffers hw s buf_avail = supply_loop hw 0 s buf_avail"

definition init :: "fifo \<Rightarrow> usbdev \<Rightarrow> int \<times> u64 \<times> usbdev" where
  "init hw s =
     (let (buf_avail, s) = supply_buffers hw s (push_bit NumBuffers 1 - 1);
          s = store phyConfig PhyConfig_UseDifferentialReceiver s
      in (0, buf_avail, s))"



fun offered :: "access list \<Rightarrow> nat list" where
  "offered [] = []"
| "offered (Store a v # xs) =
     (if a = availableSetupBuffer \<or> a = availableOutBuffer then unat v # offered xs
      else offered xs)"
| "offered (Load a # xs) = offered xs"

subsection \<open>Interrupts, connection and address\<close>

definition interrupt_enable :: "usbdev \<Rightarrow> u32 \<Rightarrow> usbdev" where
  "interrupt_enable s interrupt = store interruptEnable (mmio s interruptEnable OR interrupt) s"

definition interrupt_disable :: "usbdev \<Rightarrow> u32 \<Rightarrow> usbdev" where
  "interrupt_disable s interrupt =
     store interruptEnable (mmio s interruptEnable AND NOT interrupt) s"

definition connect :: "usbdev \<Rightarrow> int \<times> usbdev" where
  "connect s = (0, store usbControl (mmio s usbControl OR UsbControl_Enable) s)"

definition disconnect :: "usbdev \<Rightarrow> int \<times> usbdev" where
  "disconnect s = (0, store usbControl (mmio s usbControl AND NOT UsbControl_Enable) s)"

definition connected :: "usbdev \<Rightarrow> bool" where
  "connected s = (mmio s usbControl AND UsbControl_Enable \<noteq> 0)"

definition set_device_address :: "usbdev \<Rightarrow> u8 \<Rightarrow> int \<times> usbdev" where
  "set_device_address s address =
     (if address < 0x80 then
        (0, store usbControl
              ((mmio s usbControl AND NOT UsbControl_DeviceAddress) OR push_bit 16 (ucast address)) s)
      else (-1, s))"

subsection \<open>Endpoint configuration\<close>

text \<open>
  Each register is read, changed in bit \<open>ep\<close> and written back, one register after the
  other, in the order of the source: \<open>reg = (reg & ~epMask) | (flag ? epMask : 0u)\<close>.
\<close>

definition with_bit :: "u32 \<Rightarrow> u32 \<Rightarrow> bool \<Rightarrow> u32" where
  "with_bit w epMask on = (w AND NOT epMask) OR (if on then epMask else 0)"

definition set_ep_bit :: "nat \<Rightarrow> u32 \<Rightarrow> bool \<Rightarrow> usbdev \<Rightarrow> usbdev" where
  "set_ep_bit reg epMask on s = store reg (with_bit (mmio s reg) epMask on) s"

definition configure_out_endpoint :: "usbdev \<Rightarrow> u8 \<Rightarrow> bool \<Rightarrow> bool \<Rightarrow> bool \<Rightarrow> int \<times> usbdev" where
  "configure_out_endpoint s ep enabled setup iso_ep =
     (if unat ep < MaxEndpoints then
        let epMask = push_bit (unat ep) (1 :: u32);
            s = set_ep_bit endpointOutEnable epMask enabled s;
            s = set_ep_bit receiveEnableSetup epMask setup s;
            s = set_ep_bit receiveEnableOut epMask enabled s;
            s = set_ep_bit outIsochronous epMask iso_ep s
        in (0, s)
      else (-1, s))"

definition configure_in_endpoint :: "usbdev \<Rightarrow> u8 \<Rightarrow> bool \<Rightarrow> bool \<Rightarrow> int \<times> usbdev" where
  "configure_in_endpoint s ep enabled iso_ep =
     (if unat ep < MaxEndpoints then
        let epMask = push_bit (unat ep) (1 :: u32);
            s = set_ep_bit endpointInEnable epMask enabled s;
            s = set_ep_bit inIsochronous epMask iso_ep s
        in (0, s)
      else (-1, s))"

definition set_ep_stalling :: "usbdev \<Rightarrow> u8 \<Rightarrow> bool \<Rightarrow> int \<times> usbdev" where
  "set_ep_stalling s ep stalling =
     (if unat ep < MaxEndpoints then
        let epMask = push_bit (unat ep) (1 :: u32);
            s = set_ep_bit outStall epMask stalling s;
            s = set_ep_bit inStall epMask stalling s
        in (0, s)
      else (-1, s))"

subsection \<open>The word transfer\<close>

text \<open>
  \<open>usbdev_transfer\<close> moves \<open>size\<close> bytes between the caller's memory, which is byte
  addressable, and packet buffer memory, which takes 32-bit accesses only. The two
  memories of a transfer are kept apart: \<open>device\<close> holds words by the byte offset of the
  word, \<open>caller\<close> holds bytes by address. With \<open>toDevice\<close> the source pointer is an address
  of the caller and the destination an offset of the device; without it the other way
  round. A 32-bit access of the caller's memory is little-endian, as on the RISC-V target.
\<close>

record memory =
  device :: "nat \<Rightarrow> u32"
  caller :: "nat \<Rightarrow> u8"

definition caller_word :: "(nat \<Rightarrow> u8) \<Rightarrow> nat \<Rightarrow> u32" where
  "caller_word h p =
     ucast (h p) OR push_bit 8 (ucast (h (p + 1))) OR push_bit 16 (ucast (h (p + 2)))
       OR push_bit 24 (ucast (h (p + 3)))"

definition caller_put_word :: "(nat \<Rightarrow> u8) \<Rightarrow> nat \<Rightarrow> u32 \<Rightarrow> nat \<Rightarrow> u8" where
  "caller_put_word h p v =
     h(p := ucast v, p + 1 := ucast (drop_bit 8 v), p + 2 := ucast (drop_bit 16 v),
       p + 3 := ucast (drop_bit 24 v))"

text \<open>\<open>*destination = *source\<close> for 32-bit pointers, in the direction of the transfer.\<close>

definition copy_word :: "bool \<Rightarrow> nat \<Rightarrow> nat \<Rightarrow> memory \<Rightarrow> memory" where
  "copy_word toDevice destination source m =
     (if toDevice then m\<lparr>device := (device m)(destination := caller_word (caller m) source)\<rparr>
      else m\<lparr>caller := caller_put_word (caller m) destination (device m source)\<rparr>)"

text \<open>The unrolled loop: four words a round while \<open>source < sourceEnd\<close>.\<close>

function unrolled :: "bool \<Rightarrow> memory \<Rightarrow> nat \<Rightarrow> nat \<Rightarrow> nat \<Rightarrow> memory \<times> nat \<times> nat" where
  "unrolled toDevice m destination source sourceEnd =
     (if source < sourceEnd then
        let m = copy_word toDevice destination source m;
            m = copy_word toDevice (destination + 4) (source + 4) m;
            m = copy_word toDevice (destination + 8) (source + 8) m;
            m = copy_word toDevice (destination + 12) (source + 12) m
        in unrolled toDevice m (destination + 16) (source + 16) sourceEnd
      else (m, destination, source))"
  by pat_completeness auto
termination
  by (relation "measure (\<lambda>(toDevice, m, destination, source, sourceEnd). sourceEnd - source)") auto

text \<open>The remaining whole words: \<open>for (...; size >= UnrollFactor; size -= UnrollFactor)\<close>.\<close>

function whole_words :: "bool \<Rightarrow> memory \<Rightarrow> nat \<Rightarrow> nat \<Rightarrow> u8 \<Rightarrow> memory \<times> nat \<times> nat \<times> u8" where
  "whole_words toDevice m destination source size' =
     (if size' \<ge> 4 then
        whole_words toDevice (copy_word toDevice destination source m)
          (destination + 4) (source + 4) (size' - 4)
      else (m, destination, source, size'))"
  by pat_completeness auto
termination
  by (relation "measure (\<lambda>(toDevice, m, destination, source, size'). unat size')")
    (auto simp: word_le_nat_alt unat_sub_if_size word_size)

text \<open>
  The trailing bytes, after the loops: nothing when \<open>size\<close> is 0 by now; to the device, one
  to three bytes of the caller collected into a word and stored; from the device, one
  word loaded and one to three bytes of it stored to the caller.
\<close>

definition trailing_bytes :: "bool \<Rightarrow> memory \<Rightarrow> nat \<Rightarrow> nat \<Rightarrow> u8 \<Rightarrow> memory" where
  "trailing_bytes toDevice m destination source size' =
     (if size' = 0 then m
      else if toDevice then
        let partialWord = (ucast (caller m source) :: u32);
            partialWord = (if size' > 1
               then partialWord OR push_bit 8 (ucast (caller m (source + 1)))
               else partialWord);
            partialWord = (if size' > 2
               then partialWord OR push_bit 16 (ucast (caller m (source + 2)))
               else partialWord)
        in m\<lparr>device := (device m)(destination := partialWord)\<rparr>
      else
        let TrailingBytes = device m source;
            m = m\<lparr>caller := (caller m)(destination := ucast TrailingBytes)\<rparr>;
            m = (if size' > 1
               then m\<lparr>caller := (caller m)(destination + 1 := ucast (drop_bit 8 TrailingBytes))\<rparr>
               else m);
            m = (if size' > 2
               then m\<lparr>caller := (caller m)(destination + 2 := ucast (drop_bit 16 TrailingBytes))\<rparr>
               else m)
        in m)"

text \<open>
  The whole function: \<open>UnrollSize = size & ~UnrollMask\<close> bytes in rounds of four words,
  then the whole words of \<open>size & UnrollMask\<close>, then the trailing bytes.
\<close>

definition usbdev_transfer :: "memory \<Rightarrow> nat \<Rightarrow> nat \<Rightarrow> u8 \<Rightarrow> bool \<Rightarrow> memory" where
  "usbdev_transfer m destination source size' toDevice =
     (let UnrollSize = unat ((ucast size' :: u32) AND NOT 0xF);
          sourceEnd = source + UnrollSize;
          (m, destination, source) = unrolled toDevice m destination source sourceEnd;
          (m, destination, source, size') =
             whole_words toDevice m destination source (size' AND 0xF)
      in trailing_bytes toDevice m destination source size')"

text \<open>
  Two notions to state what a transfer does. \<open>copy_words n\<close> is \<open>n\<close> word copies in a row,
  each four bytes further on both sides. \<open>buffer_byte dv buf i\<close> is byte \<open>i\<close> of the packet
  buffer at offset \<open>buf\<close> of the words \<open>dv\<close>, least-significant byte first within a word.
\<close>

primrec copy_words :: "bool \<Rightarrow> nat \<Rightarrow> nat \<Rightarrow> nat \<Rightarrow> memory \<Rightarrow> memory" where
  "copy_words toDevice 0 destination source m = m"
| "copy_words toDevice (Suc n) destination source m =
     copy_words toDevice n (destination + 4) (source + 4)
       (copy_word toDevice destination source m)"

definition buffer_byte :: "(nat \<Rightarrow> u32) \<Rightarrow> nat \<Rightarrow> nat \<Rightarrow> u8" where
  "buffer_byte dv buf i = ucast (drop_bit (8 * (i mod 4)) (dv (buf + 4 * (i div 4))))"

text \<open>\<open>buffers(bufferId)\<close>: the offset of a packet buffer in the block.\<close>

definition buffers :: "u8 \<Rightarrow> nat" where
  "buffers bufferId = BufferStartAddress + unat bufferId * MaxPacketLen"

subsection \<open>Sending, collecting and receiving packets\<close>

text \<open>
  The reference parameters \<open>ep\<close> and \<open>buf_num\<close> of \<open>packet_collected\<close> come in with the
  caller's values and go out in the result. The loop variable is the parameter \<open>ep\<close>
  itself.
\<close>

function collect_scan :: "usbdev \<Rightarrow> u32 \<Rightarrow> u8 \<Rightarrow> u8 \<Rightarrow> int \<times> u8 \<times> u8 \<times> usbdev" where
  "collect_scan s sent ep buf_num =
     (if unat ep < MaxEndpoints then
        let epMask = push_bit (unat ep) (1 :: u32) in
        if sent AND epMask \<noteq> 0 then
          let s = store inSent epMask s;
              buf_num = ucast (drop_bit 0 (mmio s (configIn ep) AND ConfigIn_BufferId))
          in (0, ep, buf_num, s)
        else collect_scan s sent (ep + 1) buf_num
      else (-1, ep, buf_num, s))"
  by pat_completeness auto
termination
  by (relation "measure (\<lambda>(s, sent, ep, buf_num). MaxEndpoints - unat ep)")
    (auto simp: MaxEndpoints_def unat_word_ariths)

definition packet_collected :: "usbdev \<Rightarrow> u8 \<Rightarrow> u8 \<Rightarrow> int \<times> u8 \<times> u8 \<times> usbdev" where
  "packet_collected s ep buf_num = (let sent = mmio s inSent in collect_scan s sent 0 buf_num)"

text \<open>
  \<open>send_packet\<close> reads the payload from the caller's memory \<open>bytes\<close> at address \<open>data\<close>.
  The copy goes to packet buffer memory directly; the two stores to \<open>configIn[ep]\<close> are
  register stores, the second of the value read back.
\<close>

definition send_packet :: "usbdev \<Rightarrow> u8 \<Rightarrow> u8 \<Rightarrow> (nat \<Rightarrow> u8) \<Rightarrow> nat \<Rightarrow> u8 \<Rightarrow> int \<times> usbdev" where
  "send_packet s buf_num ep bytes data size' =
     (let s = (if size' \<noteq> 0
            then s\<lparr>mmio := device (usbdev_transfer \<lparr>device = mmio s, caller = bytes\<rparr>
                                  (buffers buf_num) data size' True)\<rparr>
            else s);
          s = store (configIn ep) (push_bit 0 (ucast buf_num) OR push_bit 8 (ucast size')) s;
          s = store (configIn ep) (mmio s (configIn ep) OR ConfigIn_Ready) s
      in (0, s))"

text \<open>
  The reference parameters of \<open>recv_packet\<close> and the caller's memory behind \<open>data\<close>, as
  they come in and as they go out.
\<close>

record received =
  r_ep :: u8
  r_buf_num :: u8
  r_size :: u16
  r_is_setup :: bool
  r_bytes :: "nat \<Rightarrow> u8"

definition recv_packet :: "usbdev \<Rightarrow> received \<Rightarrow> nat \<Rightarrow> int \<times> received \<times> usbdev" where
  "recv_packet s out data =
     (if mmio s usbStatus AND UsbStatus_ReceiveDepth \<noteq> 0 then
        let (rx, s) = pop_receive s;
            ep = (ucast (drop_bit 20 (rx AND ReceiveBuffer_EndpointId)) :: u8);
            size' = (ucast (drop_bit 8 (rx AND ReceiveBuffer_Size)) :: u16);
            is_setup = (rx AND ReceiveBuffer_Setup \<noteq> 0);
            buf_num = (ucast (rx AND ReceiveBuffer_BufferId) :: u8);
            bytes = (if size' \<noteq> 0
              then caller (usbdev_transfer \<lparr>device = mmio s, caller = r_bytes out\<rparr>
                             data (buffers buf_num) (ucast size') False)
              else r_bytes out)
        in (0, \<lparr>r_ep = ep, r_buf_num = buf_num, r_size = size', r_is_setup = is_setup,
                 r_bytes = bytes\<rparr>, s)
      else (-1, out, s))"

subsection \<open>States for examples\<close>

text \<open>The block with every word zero and no access made yet.\<close>

definition zeroed :: usbdev where
  "zeroed = \<lparr>mmio = (\<lambda>a. 0), accesses = []\<rparr>"

text \<open>
  A device for examples whose SETUP queue takes one buffer and whose OUT queue takes two:
  a buffer stored to the SETUP queue sets AvailableSetupFull; the first buffer stored to
  the OUT queue sets bit 16 (AvailableOutDepth 1), the second sets AvailableOutFull.
\<close>

definition small_queues :: fifo where
  "small_queues a v st =
     (if a = availableSetupBuffer then st OR UsbStatus_AvailableSetupFull
      else if st AND push_bit 16 1 = 0 then st OR push_bit 16 1
      else st OR UsbStatus_AvailableOutFull)"

text \<open>The device, not the driver, changing a word of the block (a packet sent or received).\<close>

definition device_sets :: "nat \<Rightarrow> u32 \<Rightarrow> usbdev \<Rightarrow> usbdev" where
  "device_sets a v s = s\<lparr>mmio := (mmio s)(a := v)\<rparr>"

section \<open>Properties\<close>

subsection \<open>Register stores\<close>

lemma mmio_store:
  "mmio (store a v s) b =
     (if b = a then (if a = inSent then mmio s a AND NOT v else v) else mmio s b)"
  by (simp add: store_def)

lemma accesses_store: "accesses (store a v s) = accesses s @ [Store a v]"
  by (simp add: store_def)

lemmas register_offsets =
  interruptState_def interruptEnable_def interruptTest_def alertTest_def usbControl_def
  endpointOutEnable_def endpointInEnable_def usbStatus_def availableOutBuffer_def
  availableSetupBuffer_def receiveBuffer_def receiveEnableSetup_def receiveEnableOut_def
  setNotAcknowledgeOut_def inSent_def outStall_def inStall_def outIsochronous_def
  inIsochronous_def outDataToggle_def inDataToggle_def phyPinsSense_def phyPinsDrive_def
  phyConfig_def

subsection \<open>Endpoint configuration\<close>

lemma bit_with_bit:
  "k < 32 \<Longrightarrow> bit (with_bit w (2 ^ k) on) n = (if n = k then on else bit w n)"
  by (auto simp: with_bit_def bit_simps dest: bit_imp_le_length)

lemma mmio_set_ep_bit:
  "reg \<noteq> inSent \<Longrightarrow>
   mmio (set_ep_bit reg epMask on s) = (mmio s)(reg := with_bit (mmio s reg) epMask on)"
  by (auto simp: set_ep_bit_def mmio_store)

lemma endpoint_registers_distinct:
  "endpointOutEnable \<noteq> inSent" "receiveEnableSetup \<noteq> inSent" "receiveEnableOut \<noteq> inSent"
  "outIsochronous \<noteq> inSent" "endpointInEnable \<noteq> inSent" "inIsochronous \<noteq> inSent"
  "outStall \<noteq> inSent" "inStall \<noteq> inSent"
  "endpointOutEnable \<noteq> receiveEnableSetup" "endpointOutEnable \<noteq> receiveEnableOut"
  "endpointOutEnable \<noteq> outIsochronous" "receiveEnableSetup \<noteq> receiveEnableOut"
  "receiveEnableSetup \<noteq> outIsochronous" "receiveEnableOut \<noteq> outIsochronous"
  "endpointInEnable \<noteq> inIsochronous" "outStall \<noteq> inStall"
  by (simp_all add: register_offsets)

lemma mmio_configure_out_endpoint:
  assumes "unat ep < MaxEndpoints"
  shows "mmio (snd (configure_out_endpoint s ep enabled setup iso_ep)) =
          (mmio s)(endpointOutEnable := with_bit (mmio s endpointOutEnable) (2 ^ unat ep) enabled,
                   receiveEnableSetup := with_bit (mmio s receiveEnableSetup) (2 ^ unat ep) setup,
                   receiveEnableOut := with_bit (mmio s receiveEnableOut) (2 ^ unat ep) enabled,
                   outIsochronous := with_bit (mmio s outIsochronous) (2 ^ unat ep) iso_ep)"
  using assms
  by (simp add: configure_out_endpoint_def Let_def mmio_set_ep_bit endpoint_registers_distinct
      endpoint_registers_distinct [symmetric])

lemma mmio_configure_in_endpoint:
  assumes "unat ep < MaxEndpoints"
  shows "mmio (snd (configure_in_endpoint s ep enabled iso_ep)) =
          (mmio s)(endpointInEnable := with_bit (mmio s endpointInEnable) (2 ^ unat ep) enabled,
                   inIsochronous := with_bit (mmio s inIsochronous) (2 ^ unat ep) iso_ep)"
  using assms
  by (simp add: configure_in_endpoint_def Let_def mmio_set_ep_bit endpoint_registers_distinct
      endpoint_registers_distinct [symmetric])

lemma mmio_set_ep_stalling:
  assumes "unat ep < MaxEndpoints"
  shows "mmio (snd (set_ep_stalling s ep stalling)) =
          (mmio s)(outStall := with_bit (mmio s outStall) (2 ^ unat ep) stalling,
                   inStall := with_bit (mmio s inStall) (2 ^ unat ep) stalling)"
  using assms
  by (simp add: set_ep_stalling_def Let_def mmio_set_ep_bit endpoint_registers_distinct
      endpoint_registers_distinct [symmetric])

lemma bit_configure_out_endpoint:
  assumes "unat ep < MaxEndpoints"
  shows "bit (mmio (snd (configure_out_endpoint s ep enabled setup iso_ep)) a) n =
           (if n = unat ep \<and> (a = endpointOutEnable \<or> a = receiveEnableOut) then enabled
            else if n = unat ep \<and> a = receiveEnableSetup then setup
            else if n = unat ep \<and> a = outIsochronous then iso_ep
            else bit (mmio s a) n)"
proof -
  have k: "unat ep < 32" using assms by (simp add: MaxEndpoints_def)
  consider "a = endpointOutEnable" | "a = receiveEnableSetup" | "a = receiveEnableOut"
    | "a = outIsochronous"
    | "a \<noteq> endpointOutEnable" "a \<noteq> receiveEnableSetup" "a \<noteq> receiveEnableOut"
      "a \<noteq> outIsochronous"
    by blast
  then show ?thesis
    by cases
      (simp_all add: mmio_configure_out_endpoint [OF assms] bit_with_bit [OF k]
        endpoint_registers_distinct endpoint_registers_distinct [symmetric])
qed

lemma bit_configure_in_endpoint:
  assumes "unat ep < MaxEndpoints"
  shows "bit (mmio (snd (configure_in_endpoint s ep enabled iso_ep)) a) n =
           (if n = unat ep \<and> a = endpointInEnable then enabled
            else if n = unat ep \<and> a = inIsochronous then iso_ep
            else bit (mmio s a) n)"
proof -
  have k: "unat ep < 32" using assms by (simp add: MaxEndpoints_def)
  consider "a = endpointInEnable" | "a = inIsochronous"
    | "a \<noteq> endpointInEnable" "a \<noteq> inIsochronous"
    by blast
  then show ?thesis
    by cases
      (simp_all add: mmio_configure_in_endpoint [OF assms] bit_with_bit [OF k]
        endpoint_registers_distinct endpoint_registers_distinct [symmetric])
qed

lemma bit_set_ep_stalling:
  assumes "unat ep < MaxEndpoints"
  shows "bit (mmio (snd (set_ep_stalling s ep stalling)) a) n =
           (if n = unat ep \<and> (a = outStall \<or> a = inStall) then stalling
            else bit (mmio s a) n)"
proof -
  have k: "unat ep < 32" using assms by (simp add: MaxEndpoints_def)
  consider "a = outStall" | "a = inStall" | "a \<noteq> outStall" "a \<noteq> inStall"
    by blast
  then show ?thesis
    by cases
      (simp_all add: mmio_set_ep_stalling [OF assms] bit_with_bit [OF k]
        endpoint_registers_distinct endpoint_registers_distinct [symmetric])
qed

text \<open>
  Claim C3. For an endpoint index of 12 or more, \<open>configure_out_endpoint\<close>,
  \<open>configure_in_endpoint\<close> and \<open>set_ep_stalling\<close> return -1 (InvalidEndpoint) and hand
  back the device as it was: no register has changed and no store was made. For an index
  below 12 each returns 0, and afterwards every bit \<open>n\<close> of every word \<open>a\<close> of the block is
  as before, except bit \<open>ep\<close> of the function's own bitmask registers, which holds the
  flag passed for it.
\<close>

theorem endpoint_configuration_checks_index:
  "(MaxEndpoints \<le> unat ep \<longrightarrow>
      configure_out_endpoint s ep enabled setup iso_ep = (-1, s) \<and>
      configure_in_endpoint s ep enabled iso_ep = (-1, s) \<and>
      set_ep_stalling s ep stalling = (-1, s)) \<and>
   (unat ep < MaxEndpoints \<longrightarrow>
      fst (configure_out_endpoint s ep enabled setup iso_ep) = 0 \<and>
      fst (configure_in_endpoint s ep enabled iso_ep) = 0 \<and>
      fst (set_ep_stalling s ep stalling) = 0 \<and>
      bit (mmio (snd (configure_out_endpoint s ep enabled setup iso_ep)) a) n =
        (if n = unat ep \<and> (a = endpointOutEnable \<or> a = receiveEnableOut) then enabled
         else if n = unat ep \<and> a = receiveEnableSetup then setup
         else if n = unat ep \<and> a = outIsochronous then iso_ep
         else bit (mmio s a) n) \<and>
      bit (mmio (snd (configure_in_endpoint s ep enabled iso_ep)) a) n =
        (if n = unat ep \<and> a = endpointInEnable then enabled
         else if n = unat ep \<and> a = inIsochronous then iso_ep
         else bit (mmio s a) n) \<and>
      bit (mmio (snd (set_ep_stalling s ep stalling)) a) n =
        (if n = unat ep \<and> (a = outStall \<or> a = inStall) then stalling
         else bit (mmio s a) n))"
proof (cases "unat ep < MaxEndpoints")
  case True
  have "fst (configure_out_endpoint s ep enabled setup iso_ep) = 0"
    "fst (configure_in_endpoint s ep enabled iso_ep) = 0"
    "fst (set_ep_stalling s ep stalling) = 0"
    using True
    by (simp_all add: configure_out_endpoint_def configure_in_endpoint_def
        set_ep_stalling_def Let_def)
  then show ?thesis
    using True
    by (simp add: bit_configure_out_endpoint [OF True] bit_configure_in_endpoint [OF True]
        bit_set_ep_stalling [OF True])
next
  case False
  then show ?thesis
    by (simp add: configure_out_endpoint_def configure_in_endpoint_def set_ep_stalling_def)
qed

theorem endpoint_configuration_checks_index_witness:
  "MaxEndpoints \<le> unat (12 :: u8) \<and>
   configure_out_endpoint zeroed 12 True True True = (-1, zeroed) \<and>
   configure_in_endpoint zeroed 12 True True = (-1, zeroed) \<and>
   set_ep_stalling zeroed 12 True = (-1, zeroed) \<and>
   unat (3 :: u8) < MaxEndpoints \<and>
   fst (configure_out_endpoint zeroed 3 True False False) = 0 \<and>
   bit (mmio (snd (configure_out_endpoint zeroed 3 True False False)) endpointOutEnable) 3 \<and>
   \<not> bit (mmio (snd (configure_out_endpoint zeroed 3 True False False)) endpointOutEnable) 4 \<and>
   \<not> bit (mmio (snd (configure_out_endpoint zeroed 3 True False False)) receiveEnableSetup) 3"
proof -
  have a: "MaxEndpoints \<le> unat (12 :: u8)" and b: "unat (3 :: u8) < MaxEndpoints"
    by (simp_all add: MaxEndpoints_def)
  have z: "\<not> bit (mmio zeroed a) n" for a n by (simp add: zeroed_def)
  show ?thesis
    using a b z
      endpoint_configuration_checks_index [of 12 zeroed True True True True]
      endpoint_configuration_checks_index [of 3 zeroed True False False True endpointOutEnable 3]
      endpoint_configuration_checks_index [of 3 zeroed True False False True endpointOutEnable 4]
      endpoint_configuration_checks_index [of 3 zeroed True False False True receiveEnableSetup 3]
    by (simp add: endpoint_registers_distinct endpoint_registers_distinct [symmetric])
qed

subsection \<open>The device address\<close>

lemma u8_below_128_bit: "(address :: u8) < 0x80 \<Longrightarrow> bit address n \<Longrightarrow> n < 7"
proof -
  assume a: "address < 0x80" and b: "bit address n"
  have "address < 2 ^ 7" using a by simp
  then have "address AND mask 7 = address" by (rule less_mask_eq)
  then have "bit (address AND mask 7) n" using b by simp
  then show "n < 7" by (simp add: bit_simps)
qed

lemma DeviceAddress_mask: "UsbControl_DeviceAddress = push_bit 16 (mask 7)"
  by (simp add: UsbControl_DeviceAddress_def mask_eq_exp_minus_1)

lemma address_field_read:
  assumes "(address :: u8) < 0x80"
  shows "drop_bit 16 (((c :: u32) AND NOT UsbControl_DeviceAddress OR push_bit 16 (ucast address))
           AND UsbControl_DeviceAddress) = ucast address"
  unfolding DeviceAddress_mask
  by (rule bit_word_eqI) (use assms in \<open>auto simp: bit_simps dest: u8_below_128_bit\<close>)

lemma address_field_frame:
  assumes "(address :: u8) < 0x80"
  shows "((c :: u32) AND NOT UsbControl_DeviceAddress OR push_bit 16 (ucast address))
           AND NOT UsbControl_DeviceAddress = c AND NOT UsbControl_DeviceAddress"
  unfolding DeviceAddress_mask
  by (rule bit_word_eqI) (use assms in \<open>auto simp: bit_simps dest: u8_below_128_bit\<close>)

text \<open>
  Claim C7. \<open>set_device_address\<close> returns -1 (InvalidAddress) for an address of 0x80 or
  more and leaves the device as it was, the control register included. For an address
  below 0x80 it returns 0; afterwards the DeviceAddress field (bits 16 to 22) of the
  control register reads the address, the bits of the control register outside that field
  are as before, and so is every other word of the block.
\<close>

theorem set_device_address_frame:
  "(address < 0x80 \<longrightarrow>
      fst (set_device_address s address) = 0 \<and>
      drop_bit 16 (mmio (snd (set_device_address s address)) usbControl
                     AND UsbControl_DeviceAddress) = ucast address \<and>
      mmio (snd (set_device_address s address)) usbControl AND NOT UsbControl_DeviceAddress
        = mmio s usbControl AND NOT UsbControl_DeviceAddress \<and>
      (\<forall>a. a \<noteq> usbControl \<longrightarrow> mmio (snd (set_device_address s address)) a = mmio s a)) \<and>
   (0x80 \<le> address \<longrightarrow> set_device_address s address = (-1, s))"
proof (cases "address < 0x80")
  case True
  have r: "set_device_address s address =
      (0, store usbControl
            ((mmio s usbControl AND NOT UsbControl_DeviceAddress) OR push_bit 16 (ucast address)) s)"
    using True by (simp add: set_device_address_def)
  have n: "usbControl \<noteq> inSent" by (simp add: usbControl_def inSent_def)
  show ?thesis
    using True n address_field_read [OF True] address_field_frame [OF True]
    by (simp add: r mmio_store del: drop_bit_and drop_bit_or)
next
  case False
  then show ?thesis by (auto simp: set_device_address_def)
qed

theorem set_device_address_frame_witness:
  "(0x7F :: u8) < 0x80 \<and>
   fst (set_device_address (snd (connect zeroed)) 0x7F) = 0 \<and>
   connected (snd (set_device_address (snd (connect zeroed)) 0x7F)) \<and>
   drop_bit 16 (mmio (snd (set_device_address (snd (connect zeroed)) 0x7F)) usbControl
                  AND UsbControl_DeviceAddress) = 0x7F \<and>
   (0x80 :: u8) \<le> 0x80 \<and>
   set_device_address (snd (connect zeroed)) 0x80 = (-1, snd (connect zeroed))"
proof -
  have n: "usbControl \<noteq> inSent" by (simp add: usbControl_def inSent_def)
  have c: "mmio (snd (connect zeroed)) usbControl = UsbControl_Enable"
    using n by (simp add: connect_def zeroed_def mmio_store)
  have e: "(UsbControl_Enable AND NOT UsbControl_DeviceAddress) AND UsbControl_Enable \<noteq> 0"
    by (simp add: UsbControl_Enable_def UsbControl_DeviceAddress_def)
  have "mmio (snd (set_device_address (snd (connect zeroed)) 0x7F)) usbControl
          AND NOT UsbControl_DeviceAddress = UsbControl_Enable AND NOT UsbControl_DeviceAddress"
    using set_device_address_frame [of "0x7F" "snd (connect zeroed)"] c by simp
  then have "(mmio (snd (set_device_address (snd (connect zeroed)) 0x7F)) usbControl
          AND NOT UsbControl_DeviceAddress) AND UsbControl_Enable \<noteq> 0"
    using e by simp
  then have k: "connected (snd (set_device_address (snd (connect zeroed)) 0x7F))"
    unfolding connected_def by (metis and_zero_eq word_bw_assocs(1) word_bw_comms(1))
  show ?thesis
    using k set_device_address_frame [of "0x7F" "snd (connect zeroed)"]
      set_device_address_frame [of "0x80" "snd (connect zeroed)"]
    by simp
qed

subsection \<open>Collecting a sent packet\<close>

lemma configIn_not_inSent: "configIn ep \<noteq> inSent"
  by (simp add: configIn_def inSent_def)

lemma and_bit_mask_nonzero: "((w :: u32) AND 2 ^ k \<noteq> 0) = bit w k"
  by (simp add: and_exp_eq_0_iff_not_bit)

lemma unat_succ_endpoint: "unat (ep :: u8) < MaxEndpoints \<Longrightarrow> unat (ep + 1) = unat ep + 1"
  by (simp add: MaxEndpoints_def unat_word_ariths)

lemma collect_scan_found:
  assumes "bit sent e" and "e < MaxEndpoints" and "unat ep \<le> e"
    and "\<forall>j. unat ep \<le> j \<and> j < e \<longrightarrow> \<not> bit sent j"
  shows "collect_scan s sent ep buf_num =
           (0, of_nat e, ucast (mmio s (configIn (of_nat e)) AND ConfigIn_BufferId),
            store inSent (2 ^ e) s)"
  using assms
proof (induction "e - unat ep" arbitrary: ep)
  case 0
  then have e: "unat ep = e" by simp
  then have ep: "of_nat e = ep" by auto
  show ?case
    using 0 e
    by (subst collect_scan.simps)
      (simp add: ep and_bit_mask_nonzero Let_def mmio_store configIn_not_inSent)
next
  case (Suc d)
  then have lt: "unat ep < e" by simp
  then have b: "\<not> bit sent (unat ep)" using Suc.prems by simp
  have u: "unat (ep + 1) = unat ep + 1"
    using lt Suc.prems by (intro unat_succ_endpoint) simp
  have "collect_scan s sent (ep + 1) buf_num =
           (0, of_nat e, ucast (mmio s (configIn (of_nat e)) AND ConfigIn_BufferId),
            store inSent (2 ^ e) s)"
    using Suc.hyps Suc.prems lt u by (intro Suc.hyps(1)) auto
  moreover have "collect_scan s sent ep buf_num = collect_scan s sent (ep + 1) buf_num"
    using lt Suc.prems b
    by (subst collect_scan.simps) (simp add: and_bit_mask_nonzero Let_def)
  ultimately show ?case by simp
qed

lemma collect_scan_none:
  assumes "unat ep \<le> MaxEndpoints"
    and "\<forall>j. unat ep \<le> j \<and> j < MaxEndpoints \<longrightarrow> \<not> bit sent j"
  shows "collect_scan s sent ep buf_num = (-1, 12, buf_num, s)"
  using assms
proof (induction "MaxEndpoints - unat ep" arbitrary: ep)
  case 0
  then have "unat ep = 12" by (simp add: MaxEndpoints_def)
  moreover have "ep = of_nat (unat ep)" by simp
  ultimately have "ep = 12" by simp
  then show ?case by (subst collect_scan.simps) (simp add: MaxEndpoints_def)
next
  case (Suc d)
  then have lt: "unat ep < MaxEndpoints" by simp
  then have b: "\<not> bit sent (unat ep)" using Suc.prems by simp
  have u: "unat (ep + 1) = unat ep + 1" using lt by (rule unat_succ_endpoint)
  have "collect_scan s sent (ep + 1) buf_num = (-1, 12, buf_num, s)"
    using Suc.hyps Suc.prems lt u by (intro Suc.hyps(1)) auto
  moreover have "collect_scan s sent ep buf_num = collect_scan s sent (ep + 1) buf_num"
    using lt b
    by (subst collect_scan.simps) (simp add: and_bit_mask_nonzero Let_def)
  ultimately show ?case by simp
qed

lemma mmio_ack_sent:
  assumes "e < MaxEndpoints"
  shows "bit (mmio (store inSent (2 ^ e) s) inSent) n = (bit (mmio s inSent) n \<and> n \<noteq> e)"
  using assms by (auto simp: mmio_store bit_simps MaxEndpoints_def dest: bit_imp_le_length)

text \<open>
  Claim C5. When at least one of bits 0 to 11 of the in-sent register is set and \<open>e\<close> is
  the lowest of them, \<open>packet_collected\<close> returns 0 with \<open>ep = e\<close> and with \<open>buf_num\<close> the
  BufferId field (bits 0 to 4) of \<open>configIn[e]\<close>; its only register store is the mask of
  bit \<open>e\<close> to the in-sent register, after which bit \<open>e\<close> of that register is clear, its
  other bits are as before and so is every other word of the block. When none of bits 0
  to 11 is set it returns -1 (NoCompletedSend).
\<close>

theorem packet_collected_lowest_endpoint:
  "(e < MaxEndpoints \<and> bit (mmio s inSent) e \<and> (\<forall>j<e. \<not> bit (mmio s inSent) j) \<longrightarrow>
      (case packet_collected s ep buf_num of (r, ep', buf_num', s') \<Rightarrow>
         r = 0 \<and> unat ep' = e \<and>
         buf_num' = ucast (mmio s (configIn ep') AND ConfigIn_BufferId) \<and>
         accesses s' = accesses s @ [Store inSent (2 ^ e)] \<and>
         (\<forall>n. bit (mmio s' inSent) n = (bit (mmio s inSent) n \<and> n \<noteq> e)) \<and>
         (\<forall>a. a \<noteq> inSent \<longrightarrow> mmio s' a = mmio s a))) \<and>
   ((\<forall>j<MaxEndpoints. \<not> bit (mmio s inSent) j) \<longrightarrow>
      fst (packet_collected s ep buf_num) = -1)"
proof (intro conjI impI)
  assume h: "e < MaxEndpoints \<and> bit (mmio s inSent) e \<and> (\<forall>j<e. \<not> bit (mmio s inSent) j)"
  then have r: "packet_collected s ep buf_num =
      (0, of_nat e, ucast (mmio s (configIn (of_nat e)) AND ConfigIn_BufferId),
       store inSent (2 ^ e) s)"
    unfolding packet_collected_def Let_def by (intro collect_scan_found) auto
  have u: "unat (of_nat e :: u8) = e"
    using h by (simp add: MaxEndpoints_def unat_of_nat)
  show "case packet_collected s ep buf_num of (r, ep', buf_num', s') \<Rightarrow>
         r = 0 \<and> unat ep' = e \<and>
         buf_num' = ucast (mmio s (configIn ep') AND ConfigIn_BufferId) \<and>
         accesses s' = accesses s @ [Store inSent (2 ^ e)] \<and>
         (\<forall>n. bit (mmio s' inSent) n = (bit (mmio s inSent) n \<and> n \<noteq> e)) \<and>
         (\<forall>a. a \<noteq> inSent \<longrightarrow> mmio s' a = mmio s a)"
    using h u by (simp add: r accesses_store mmio_ack_sent) (simp add: mmio_store)
next
  assume "\<forall>j<MaxEndpoints. \<not> bit (mmio s inSent) j"
  then have "packet_collected s ep buf_num = (-1, 12, buf_num, s)"
    unfolding packet_collected_def Let_def by (intro collect_scan_none) auto
  then show "fst (packet_collected s ep buf_num) = -1" by simp
qed

text \<open>
  Claim C10. When none of bits 0 to 11 of the in-sent register is set,
  \<open>packet_collected\<close> returns -1 (NoCompletedSend) with the output parameter \<open>ep\<close> set to
  12, whatever the caller had in it, with \<open>buf_num\<close> as the caller passed it, and with
  the device untouched. The error return of \<open>recv_packet\<close>, by contrast, changes no output
  parameter.
\<close>

theorem packet_collected_error_sets_ep:
  "(\<forall>j<MaxEndpoints. \<not> bit (mmio s inSent) j) \<Longrightarrow>
     packet_collected s ep buf_num = (-1, 12, buf_num, s)"
  unfolding packet_collected_def Let_def by (intro collect_scan_none) auto

subsection \<open>Receiving from an empty FIFO\<close>

text \<open>
  Claim C6. When the ReceiveDepth field (bits 24 to 27) of the status register is zero,
  \<open>recv_packet\<close> returns -1 (NoPacketAvailable) at once: the output parameters \<open>ep\<close>,
  \<open>buf_num\<close>, \<open>size\<close>, \<open>is_setup\<close> and the caller's data buffer are handed back as they
  came in, and the device is as before, with no access recorded, so the receive FIFO
  register was not loaded (not popped).
\<close>

theorem recv_packet_empty:
  "mmio s usbStatus AND UsbStatus_ReceiveDepth = 0 \<Longrightarrow> recv_packet s out data = (-1, out, s)"
  by (simp add: recv_packet_def)


theorem packet_collected_lowest_endpoint_witness:
  "(2 :: nat) < MaxEndpoints \<and>
   bit (mmio (device_sets inSent 0xC (device_sets (configIn 2) 0x705 zeroed)) inSent) 2 \<and>
   fst (packet_collected (device_sets inSent 0xC (device_sets (configIn 2) 0x705 zeroed)) 9 9) = 0 \<and>
   fst (snd (packet_collected (device_sets inSent 0xC (device_sets (configIn 2) 0x705 zeroed)) 9 9)) = 2 \<and>
   fst (snd (snd (packet_collected (device_sets inSent 0xC (device_sets (configIn 2) 0x705 zeroed)) 9 9))) = 5 \<and>
   fst (packet_collected zeroed 9 9) = -1"
proof -
  define sx where "sx = device_sets inSent 0xC (device_sets (configIn 2) 0x705 zeroed)"
  have i: "mmio sx inSent = 0xC"
    by (simp add: sx_def device_sets_def)
  have c: "mmio sx (configIn 2) = 0x705"
    by (simp add: sx_def device_sets_def configIn_not_inSent)
  have b: "bit (mmio sx inSent) 2" "\<forall>j<2. \<not> bit (mmio sx inSent) j"
    by (simp_all add: i less_2_cases_iff)
  have m: "(2 :: nat) < MaxEndpoints" by (simp add: MaxEndpoints_def)
  have z: "\<forall>j<MaxEndpoints. \<not> bit (mmio zeroed inSent) j" by (simp add: zeroed_def)
  have e: "ep' = 2" if "unat ep' = 2" for ep' :: u8
  proof -
    have "ep' = of_nat (unat ep')" by simp
    then show ?thesis using that by simp
  qed
  have f: "ucast ((0x705 :: u32) AND ConfigIn_BufferId) = (5 :: u8)"
    by (simp add: ConfigIn_BufferId_def)
  show ?thesis
    unfolding sx_def [symmetric]
    using packet_collected_lowest_endpoint [of 2 sx 9 9]
      packet_collected_lowest_endpoint [of 0 zeroed 9 9] m b z e c f
    by (auto split: prod.splits)
qed

theorem packet_collected_error_sets_ep_witness:
  "mmio zeroed inSent = 0 \<and> packet_collected zeroed 7 9 = (-1, 12, 9, zeroed)"
proof -
  have z: "\<forall>j<MaxEndpoints. \<not> bit (mmio zeroed inSent) j" by (simp add: zeroed_def)
  show ?thesis using packet_collected_error_sets_ep [OF z, of 7 9] by (simp add: zeroed_def)
qed

theorem recv_packet_empty_witness:
  "mmio zeroed usbStatus AND UsbStatus_ReceiveDepth = 0 \<and>
   recv_packet zeroed \<lparr>r_ep = 1, r_buf_num = 2, r_size = 3, r_is_setup = True, r_bytes = (\<lambda>a. 7)\<rparr> 0
     = (-1, \<lparr>r_ep = 1, r_buf_num = 2, r_size = 3, r_is_setup = True, r_bytes = (\<lambda>a. 7)\<rparr>, zeroed)"
proof -
  have z: "mmio zeroed usbStatus AND UsbStatus_ReceiveDepth = 0" by (simp add: zeroed_def)
  show ?thesis using z recv_packet_empty [OF z] by simp
qed

subsection \<open>Sending a packet\<close>

lemma u8_below_bit: "unat (x :: u8) < 2 ^ k \<Longrightarrow> bit x n \<Longrightarrow> n < k"
proof (rule ccontr)
  assume a: "unat x < 2 ^ k" and b: "bit x n" and c: "\<not> n < k"
  have "(2 :: nat) ^ k \<le> 2 ^ n" using c by (simp add: power_increasing)
  then have "unat x < 2 ^ n" using a by linarith
  then have "unat x div 2 ^ n = 0" by (rule div_less)
  then have "\<not> bit (unat x) n" by (simp add: bit_iff_odd)
  then show False using b by (simp add: bit_unsigned_iff)
qed

lemma ConfigIn_BufferId_mask: "ConfigIn_BufferId = mask 5"
  by (simp add: ConfigIn_BufferId_def mask_eq_exp_minus_1)

lemma ConfigIn_Size_mask: "ConfigIn_Size = push_bit 8 (mask 7)"
  by (simp add: ConfigIn_Size_def mask_eq_exp_minus_1)

lemma ConfigIn_Ready_bit: "bit ConfigIn_Ready n = (n = 31)"
  unfolding ConfigIn_Ready_def by (simp only: bit_simps) auto

lemma config_word_bit:
  "bit (ucast (buf_num :: u8) OR push_bit 8 (ucast (size' :: u8)) :: u32) n =
     (if n < 8 then bit buf_num n else n < 16 \<and> bit size' (n - 8))"
  by (auto simp: bit_simps dest: bit_imp_le_length)

lemma config_word_not_ready:
  "\<not> bit (ucast (buf_num :: u8) OR push_bit 8 (ucast (size' :: u8)) :: u32) 31"
  by (simp add: config_word_bit)

lemma config_word_buffer_id:
  assumes "unat (buf_num :: u8) < NumBuffers"
  shows "(ucast buf_num OR push_bit 8 (ucast (size' :: u8)) :: u32)
           AND ConfigIn_BufferId = ucast buf_num"
proof -
  have b: "n < 5" if "bit buf_num n" for n
    using assms that u8_below_bit [of buf_num 5 n] by (simp add: NumBuffers_def)
  show ?thesis
    unfolding ConfigIn_BufferId_mask
    by (rule bit_word_eqI) (auto simp: bit_simps dest: b bit_imp_le_length)
qed

lemma config_word_ready_buffer_id:
  "((v :: u32) OR ConfigIn_Ready) AND ConfigIn_BufferId = v AND ConfigIn_BufferId"
  unfolding ConfigIn_BufferId_mask
  by (rule bit_word_eqI) (auto simp: bit_simps ConfigIn_Ready_bit)

lemma config_word_size:
  assumes "unat (size' :: u8) \<le> MaxPacketLen"
  shows "drop_bit 8 ((ucast (buf_num :: u8) OR push_bit 8 (ucast size') :: u32)
           AND ConfigIn_Size) = ucast size'"
proof -
  have b: "n < 7" if "bit size' n" for n
    using assms that u8_below_bit [of size' 7 n] by (simp add: MaxPacketLen_def)
  show ?thesis
    unfolding ConfigIn_Size_mask
    by (rule bit_word_eqI) (auto simp: bit_simps dest: b bit_imp_le_length)
qed

lemma accesses_send_packet:
  "accesses (snd (send_packet s buf_num ep bytes data size')) =
     accesses s @
       [Store (configIn ep) (ucast buf_num OR push_bit 8 (ucast size')),
        Store (configIn ep) ((ucast buf_num OR push_bit 8 (ucast size')) OR ConfigIn_Ready)]"
  by (simp add: send_packet_def Let_def accesses_store mmio_store configIn_not_inSent)

lemma mmio_send_packet_configIn:
  "mmio (snd (send_packet s buf_num ep bytes data size')) (configIn ep) =
     (ucast buf_num OR push_bit 8 (ucast size')) OR ConfigIn_Ready"
  by (simp add: send_packet_def Let_def mmio_store configIn_not_inSent)

lemma mmio_send_packet_zero_length:
  "a \<noteq> configIn ep \<Longrightarrow> mmio (snd (send_packet s buf_num ep bytes data 0)) a = mmio s a"
  by (simp add: send_packet_def Let_def mmio_store configIn_not_inSent)

lemma fst_send_packet: "fst (send_packet s buf_num ep bytes data size') = 0"
  by (simp add: send_packet_def Let_def)

lemma configIn_in_array: "unat ep < MaxEndpoints \<Longrightarrow> configIn ep < configInEnd"
  by (simp add: configIn_def configInEnd_def)

lemma configIn_past_array: "MaxEndpoints \<le> unat ep \<Longrightarrow> configInEnd \<le> configIn ep"
  by (simp add: configIn_def configInEnd_def)

text \<open>
  Claim C4. For an endpoint below 12, \<open>send_packet\<close> returns 0 and makes exactly two
  register stores, both to \<open>configIn[ep]\<close>, which lies inside the array. The first stores
  a word \<open>v\<close> with the Ready bit (bit 31) clear, whose BufferId field (bits 0 to 4) is
  the buffer number, for a buffer number below 32, and whose Size field (bits 8 to 14)
  is the size, for a size of at most 64; the second stores \<open>v\<close> with the Ready bit set.
  With size 0 every word of the block other than \<open>configIn[ep]\<close> is as before: nothing is
  copied into packet buffer memory.
\<close>

theorem send_packet_ready_in_second_store:
  "unat ep < MaxEndpoints \<Longrightarrow>
     fst (send_packet s buf_num ep bytes data size') = 0 \<and>
     configIn ep < configInEnd \<and>
     (\<exists>v. accesses (snd (send_packet s buf_num ep bytes data size')) =
            accesses s @ [Store (configIn ep) v, Store (configIn ep) (v OR ConfigIn_Ready)] \<and>
          v = push_bit 0 (ucast buf_num) OR push_bit 8 (ucast size') \<and>
          \<not> bit v 31 \<and> bit (v OR ConfigIn_Ready) 31 \<and>
          (unat buf_num < NumBuffers \<longrightarrow> v AND ConfigIn_BufferId = ucast buf_num) \<and>
          (unat size' \<le> MaxPacketLen \<longrightarrow> drop_bit 8 (v AND ConfigIn_Size) = ucast size')) \<and>
     (size' = 0 \<longrightarrow>
        (\<forall>a. a \<noteq> configIn ep \<longrightarrow>
           mmio (snd (send_packet s buf_num ep bytes data size')) a = mmio s a))"
proof (intro conjI)
  assume ep: "unat ep < MaxEndpoints"
  show "fst (send_packet s buf_num ep bytes data size') = 0" by (rule fst_send_packet)
  show "configIn ep < configInEnd" using ep by (rule configIn_in_array)
  show "size' = 0 \<longrightarrow>
        (\<forall>a. a \<noteq> configIn ep \<longrightarrow>
           mmio (snd (send_packet s buf_num ep bytes data size')) a = mmio s a)"
    by (auto simp: mmio_send_packet_zero_length)
  show "\<exists>v. accesses (snd (send_packet s buf_num ep bytes data size')) =
            accesses s @ [Store (configIn ep) v, Store (configIn ep) (v OR ConfigIn_Ready)] \<and>
          v = push_bit 0 (ucast buf_num) OR push_bit 8 (ucast size') \<and>
          \<not> bit v 31 \<and> bit (v OR ConfigIn_Ready) 31 \<and>
          (unat buf_num < NumBuffers \<longrightarrow> v AND ConfigIn_BufferId = ucast buf_num) \<and>
          (unat size' \<le> MaxPacketLen \<longrightarrow> drop_bit 8 (v AND ConfigIn_Size) = ucast size')"
    apply (rule exI [of _ "ucast buf_num OR push_bit 8 (ucast size')"])
    apply (intro conjI impI)
         apply (rule accesses_send_packet)
        apply simp
       apply (rule config_word_not_ready)
      apply (simp add: bit_or_iff ConfigIn_Ready_bit)
     apply (erule config_word_buffer_id)
    apply (erule config_word_size)
    done
qed

theorem send_packet_ready_in_second_store_witness:
  "unat (2 :: u8) < MaxEndpoints \<and>
   fst (send_packet zeroed 5 2 (\<lambda>a. 0) 0 3) = 0 \<and>
   accesses (snd (send_packet zeroed 5 2 (\<lambda>a. 0) 0 3)) =
     [Store (configIn 2) 0x305, Store (configIn 2) 0x80000305]"
proof -
  have m: "unat (2 :: u8) < MaxEndpoints" by (simp add: MaxEndpoints_def)
  show ?thesis
    using m send_packet_ready_in_second_store [OF m, of zeroed 5 "\<lambda>a. 0" 0 3]
    by (auto simp: zeroed_def ConfigIn_Ready_def)
qed

text \<open>
  Claim C9. \<open>send_packet\<close> checks none of its arguments: it returns 0 for every buffer
  number, endpoint and size. For an endpoint of 12 or more the two stores it makes go to
  the address computed for \<open>configIn[ep]\<close>, which lies at or past the end of the
  twelve-entry array, and the word there is left with the Ready bit set.
\<close>

theorem send_packet_never_fails:
  "fst (send_packet s buf_num ep bytes data size') = 0 \<and>
   (MaxEndpoints \<le> unat ep \<longrightarrow>
      configInEnd \<le> configIn ep \<and>
      (\<exists>v. accesses (snd (send_packet s buf_num ep bytes data size')) =
             accesses s @ [Store (configIn ep) v, Store (configIn ep) (v OR ConfigIn_Ready)]) \<and>
      bit (mmio (snd (send_packet s buf_num ep bytes data size')) (configIn ep)) 31)"
proof (intro conjI impI)
  show "fst (send_packet s buf_num ep bytes data size') = 0" by (rule fst_send_packet)
  show "\<exists>v. accesses (snd (send_packet s buf_num ep bytes data size')) =
             accesses s @ [Store (configIn ep) v, Store (configIn ep) (v OR ConfigIn_Ready)]"
    using accesses_send_packet by blast
  show "bit (mmio (snd (send_packet s buf_num ep bytes data size')) (configIn ep)) 31"
    by (simp add: mmio_send_packet_configIn bit_or_iff ConfigIn_Ready_bit)
next
  assume "MaxEndpoints \<le> unat ep"
  then show "configInEnd \<le> configIn ep" by (rule configIn_past_array)
qed

theorem send_packet_never_fails_witness:
  "MaxEndpoints \<le> unat (12 :: u8) \<and> configIn 12 = outIsochronous \<and>
   fst (send_packet zeroed 40 12 (\<lambda>a. 0) 0 200) = 0 \<and>
   bit (mmio (snd (send_packet zeroed 40 12 (\<lambda>a. 0) 0 200)) outIsochronous) 31"
proof -
  have m: "MaxEndpoints \<le> unat (12 :: u8)" by (simp add: MaxEndpoints_def)
  have c: "configIn 12 = outIsochronous" by (simp add: configIn_def outIsochronous_def)
  show ?thesis
    using m c send_packet_never_fails [of zeroed 40 12 "\<lambda>a. 0" 0 200]
    by simp
qed

text \<open>
  Claim C8. After \<open>send_packet\<close> for an endpoint below 12 and a buffer below 32, let the
  device complete the transfer: in the state it leaves, the in-sent bit of the endpoint is
  set, no in-sent bit of a lower endpoint is set, and the BufferId field of
  \<open>configIn[ep]\<close> is as \<open>send_packet\<close> left it. Then \<open>packet_collected\<close> returns 0 with the
  endpoint and the buffer number that were sent.
\<close>

theorem send_then_collect:
  assumes "unat ep < MaxEndpoints" and "unat buf_num < NumBuffers"
    and "mmio s2 (configIn ep) AND ConfigIn_BufferId =
         mmio (snd (send_packet s buf_num ep bytes data size')) (configIn ep) AND ConfigIn_BufferId"
    and "bit (mmio s2 inSent) (unat ep)"
    and "\<forall>j<unat ep. \<not> bit (mmio s2 inSent) j"
  shows "fst (packet_collected s2 ep0 buf0) = 0 \<and>
         fst (snd (packet_collected s2 ep0 buf0)) = ep \<and>
         fst (snd (snd (packet_collected s2 ep0 buf0))) = buf_num"
proof -
  have r: "packet_collected s2 ep0 buf0 =
      (0, of_nat (unat ep), ucast (mmio s2 (configIn (of_nat (unat ep))) AND ConfigIn_BufferId),
       store inSent (2 ^ unat ep) s2)"
    unfolding packet_collected_def Let_def using assms by (intro collect_scan_found) auto
  have "mmio s2 (configIn ep) AND ConfigIn_BufferId = ucast buf_num"
    using assms(2,3)
    by (simp add: mmio_send_packet_configIn config_word_ready_buffer_id config_word_buffer_id)
  then show ?thesis by (simp add: r ucast_down_ucast_id is_down)
qed

theorem send_then_collect_witness:
  "unat (2 :: u8) < MaxEndpoints \<and> unat (5 :: u8) < NumBuffers \<and>
   bit (mmio (device_sets inSent 4 (snd (send_packet zeroed 5 2 (\<lambda>a. 0) 0 0))) inSent) 2 \<and>
   fst (packet_collected (device_sets inSent 4 (snd (send_packet zeroed 5 2 (\<lambda>a. 0) 0 0))) 9 9) = 0 \<and>
   fst (snd (packet_collected
     (device_sets inSent 4 (snd (send_packet zeroed 5 2 (\<lambda>a. 0) 0 0))) 9 9)) = 2 \<and>
   fst (snd (snd (packet_collected
     (device_sets inSent 4 (snd (send_packet zeroed 5 2 (\<lambda>a. 0) 0 0))) 9 9))) = 5"
proof -
  define s1 where "s1 = snd (send_packet zeroed 5 2 (\<lambda>a. 0) 0 0)"
  define s2 where "s2 = device_sets inSent 4 s1"
  have m: "unat (2 :: u8) < MaxEndpoints" "unat (5 :: u8) < NumBuffers"
    by (simp_all add: MaxEndpoints_def NumBuffers_def)
  have i: "mmio s2 inSent = 4" by (simp add: s2_def device_sets_def)
  have c: "mmio s2 (configIn 2) AND ConfigIn_BufferId = mmio s1 (configIn 2) AND ConfigIn_BufferId"
    by (simp add: s2_def device_sets_def configIn_not_inSent)
  have b: "bit (mmio s2 inSent) (unat (2 :: u8))" "\<forall>j<unat (2 :: u8). \<not> bit (mmio s2 inSent) j"
    by (simp_all add: i less_2_cases_iff)
  show ?thesis
    using m b(1) send_then_collect [OF m c [unfolded s1_def] b, of 9 9]
    by (simp add: s2_def s1_def)
qed

lemma rest_size: "unat ((sz :: u8) AND 0xF) = unat sz mod 16"
proof -
  have "(0xF :: u8) = mask 4" by (simp add: mask_eq_exp_minus_1)
  then have "sz AND 0xF = take_bit 4 sz" by (simp add: take_bit_eq_mask)
  then show ?thesis by (simp add: unsigned_take_bit_eq take_bit_eq_mod unat_mod_distrib)
qed

lemma and_not_mask_push_drop: "(x :: u32) AND NOT (mask n) = push_bit n (drop_bit n x)"
  by (rule bit_word_eqI) (auto simp: bit_simps)

lemma unat_ucast_u8_u32: "unat (ucast (sz :: u8) :: u32) = unat sz"
proof -
  have "unat sz < 2 ^ 32"
    using unsigned_less [of sz, where 'a = nat] by simp
  then show ?thesis by (simp add: unsigned_ucast_eq take_bit_eq_mod)
qed

lemma unroll_size: "unat ((ucast (sz :: u8) :: u32) AND NOT 0xF) = 16 * (unat sz div 16)"
proof -
  have m: "(0xF :: u32) = mask 4" by (simp add: mask_eq_exp_minus_1)
  have "unat (drop_bit 4 (ucast sz :: u32)) = unat sz div 16"
    by (simp add: unat_drop_bit_eq drop_bit_eq_div unat_div_distrib unat_ucast_u8_u32)
  moreover have "unat sz div 16 < 16"
    using unsigned_less [of sz, where 'a = nat] by simp
  ultimately show ?thesis
    unfolding m and_not_mask_push_drop
    by (simp add: push_bit_eq_mult unat_word_ariths)
qed

lemma copy_words_add:
  "copy_words toDevice (a + b) d s m =
     copy_words toDevice b (d + 4 * a) (s + 4 * a) (copy_words toDevice a d s m)"
  by (induction a arbitrary: d s m) (simp_all add: add.assoc)

lemma copy_words_4:
  "copy_words toDevice 4 d s m =
     copy_word toDevice (d + 12) (s + 12)
       (copy_word toDevice (d + 8) (s + 8)
         (copy_word toDevice (d + 4) (s + 4) (copy_word toDevice d s m)))"
  by (simp add: eval_nat_numeral add.assoc)

lemma unrolled_copy_words:
  "unrolled toDevice m d s (s + 16 * b) =
     (copy_words toDevice (4 * b) d s m, d + 16 * b, s + 16 * b)"
proof (induction b arbitrary: m d s)
  case 0
  show ?case by (subst unrolled.simps) simp
next
  case (Suc b)
  have e: "s + 16 * Suc b = (s + 16) + 16 * b" by simp
  have f: "4 * Suc b = 4 + 4 * b" by simp
  show ?case
    apply (subst unrolled.simps)
    apply (simp only: e f copy_words_add [of _ 4] Let_def Suc.IH copy_words_4)
    apply simp
    done
qed

lemma whole_words_copy_words:
  "whole_words toDevice m d s sz =
     (copy_words toDevice (unat sz div 4) d s m, d + 4 * (unat sz div 4),
      s + 4 * (unat sz div 4), of_nat (unat sz mod 4))"
proof (induction "unat sz div 4" arbitrary: m d s sz)
  case 0
  then have lt: "unat sz < 4" by (simp add: div_eq_0_iff)
  then have "\<not> 4 \<le> sz" by (simp add: word_le_nat_alt)
  moreover have "of_nat (unat sz mod 4) = sz" using lt by simp
  ultimately show ?case
    using 0 by (subst whole_words.simps) simp
next
  case (Suc k)
  then have ge: "4 \<le> unat sz" by linarith
  then have le: "4 \<le> sz" by (simp add: word_le_nat_alt)
  have u: "unat (sz - 4) = unat sz - 4"
    using le by (simp add: unat_sub)
  have k: "k = unat (sz - 4) div 4" using Suc.hyps(2) ge u by simp
  have d: "unat sz div 4 = Suc (unat (sz - 4) div 4)" using Suc.hyps(2) k by simp
  have md: "unat (sz - 4) mod 4 = unat sz mod 4" using ge u by (simp add: le_mod_geq)
  show ?case
    apply (subst whole_words.simps)
    apply (simp only: le if_True Suc.hyps(1) [OF k] d copy_words.simps md)
    apply simp
    done
qed

lemma usbdev_transfer_copy_words:
  "usbdev_transfer m d s sz toDevice =
     trailing_bytes toDevice (copy_words toDevice (unat sz div 4) d s m)
       (d + 4 * (unat sz div 4)) (s + 4 * (unat sz div 4)) (of_nat (unat sz mod 4))"
proof -
  have n: "4 * (unat sz div 16) + unat sz mod 16 div 4 = unat sz div 4" by presburger
  have r: "unat sz mod 16 mod 4 = unat sz mod 4" by (simp add: mod_mod_cancel)
  have "4 * (4 * (unat sz div 16) + unat sz mod 16 div 4) = 4 * (unat sz div 4)"
    by (simp only: n)
  then have a: "16 * (unat sz div 16) + 4 * (unat sz mod 16 div 4) = 4 * (unat sz div 4)"
    by simp
  have c: "copy_words toDevice (unat sz div 4) d s m =
      copy_words toDevice (unat sz mod 16 div 4) (d + 16 * (unat sz div 16))
        (s + 16 * (unat sz div 16)) (copy_words toDevice (4 * (unat sz div 16)) d s m)"
    using copy_words_add [of toDevice "4 * (unat sz div 16)" "unat sz mod 16 div 4" d s m]
    by (simp add: n)
  show ?thesis
    unfolding usbdev_transfer_def Let_def unroll_size unrolled_copy_words
      whole_words_copy_words rest_size
    by (simp only: prod.case r add.assoc a c)
qed

lemma below_4_cases: "j < 4 \<Longrightarrow> j = 0 \<or> j = 1 \<or> j = 2 \<or> j = (3 :: nat)"
  by arith

lemma caller_word_bytes:
  "ucast (caller_word h p) = h p"
  "ucast (drop_bit 8 (caller_word h p)) = h (p + 1)"
  "ucast (drop_bit 16 (caller_word h p)) = h (p + 2)"
  "ucast (drop_bit 24 (caller_word h p)) = h (p + 3)"
  unfolding caller_word_def
  by (rule bit_word_eqI; auto simp: bit_simps dest: bit_imp_le_length)+

lemma caller_word_byte:
  "j < 4 \<Longrightarrow> ucast (drop_bit (8 * j) (caller_word h p)) = h (p + j)"
  using caller_word_bytes [of h p] by (auto dest!: below_4_cases)

lemma caller_put_word_byte:
  "j < 4 \<Longrightarrow> caller_put_word h p v (p + j) = ucast (drop_bit (8 * j) v)"
  by (auto simp: caller_put_word_def dest!: below_4_cases)

lemma caller_put_word_other:
  "a < p \<or> p + 4 \<le> a \<Longrightarrow> caller_put_word h p v a = h a"
  by (auto simp: caller_put_word_def)

text \<open>Word copies to the device.\<close>

lemma caller_copy_words_to: "caller (copy_words True n d s m) = caller m"
  by (induction n arbitrary: d s m) (simp_all add: copy_word_def)

lemma device_copy_words_to_below:
  "a < d \<Longrightarrow> device (copy_words True n d s m) a = device m a"
  by (induction n arbitrary: d s m) (simp_all add: copy_word_def)

lemma device_copy_words_to:
  "k < n \<Longrightarrow> device (copy_words True n d s m) (d + 4 * k) = caller_word (caller m) (s + 4 * k)"
proof (induction n arbitrary: d s m k)
  case 0
  then show ?case by simp
next
  case (Suc n)
  show ?case
  proof (cases k)
    case 0
    then show ?thesis by (simp add: device_copy_words_to_below copy_word_def)
  next
    case (Suc k')
    then have "k' < n" using Suc.prems by simp
    from Suc.IH [OF this, of "d + 4" "s + 4" "copy_word True d s m"]
    show ?thesis using Suc by (simp add: copy_word_def add.assoc)
  qed
qed

text \<open>Word copies from the device.\<close>

lemma device_copy_words_from: "device (copy_words False n d s m) = device m"
  by (induction n arbitrary: d s m) (simp_all add: copy_word_def)

lemma caller_copy_words_from_below:
  "a < d \<Longrightarrow> caller (copy_words False n d s m) a = caller m a"
  by (induction n arbitrary: d s m) (simp_all add: copy_word_def caller_put_word_other)

lemma caller_copy_words_from:
  "i < 4 * n \<Longrightarrow> caller (copy_words False n d s m) (d + i) = buffer_byte (device m) s i"
proof (induction n arbitrary: d s m i)
  case 0
  then show ?case by simp
next
  case (Suc n)
  show ?case
  proof (cases "i < 4")
    case True
    then show ?thesis
      by (simp add: caller_copy_words_from_below copy_word_def caller_put_word_byte
          buffer_byte_def)
  next
    case False
    then have i: "i - 4 < 4 * n" using Suc.prems by simp
    have e: "d + i = (d + 4) + (i - 4)" using False by simp
    have dv: "i div 4 = Suc ((i - 4) div 4)" "i mod 4 = (i - 4) mod 4"
      using False by (simp_all add: le_div_geq le_mod_geq)
    have b: "buffer_byte (device m) (s + 4) (i - 4) = buffer_byte (device m) s i"
      by (simp add: buffer_byte_def dv add.assoc)
    from Suc.IH [OF i, of "d + 4" "s + 4" "copy_word False d s m"]
    show ?thesis by (simp add: e b copy_word_def)
  qed
qed

text \<open>The trailing bytes.\<close>

lemma trailing_size:
  assumes "r < 4"
  shows "((of_nat r :: u8) = 0) = (r = 0)" "(1 < (of_nat r :: u8)) = (1 < r)"
    "(2 < (of_nat r :: u8)) = (2 < r)"
  using below_4_cases [OF assms] by auto

lemma trailing_none: "trailing_bytes toDevice m d s 0 = m"
  by (simp add: trailing_bytes_def)

lemma trailing_to_caller: "caller (trailing_bytes True m d s sz) = caller m"
  by (simp add: trailing_bytes_def Let_def)

lemma trailing_to_other: "a \<noteq> d \<Longrightarrow> device (trailing_bytes True m d s sz) a = device m a"
  by (simp add: trailing_bytes_def Let_def)

lemma trailing_to_byte:
  assumes "r < 4" and "j < r"
  shows "ucast (drop_bit (8 * j) (device (trailing_bytes True m d s (of_nat r)) d))
           = caller m (s + j)"
proof -
  consider "r = 1" "j = 0" | "r = 2" "j = 0" | "r = 2" "j = 1"
    | "r = 3" "j = 0" | "r = 3" "j = 1" | "r = 3" "j = 2"
    using assms by arith
  then show ?thesis
    by cases
      (simp_all add: trailing_bytes_def Let_def;
        rule bit_word_eqI; auto simp: bit_simps dest: bit_imp_le_length)+
qed

lemma trailing_from_device: "device (trailing_bytes False m d s sz) = device m"
  by (simp add: trailing_bytes_def Let_def)

lemma trailing_from_below: "a < d \<Longrightarrow> caller (trailing_bytes False m d s sz) a = caller m a"
  by (simp add: trailing_bytes_def Let_def)

lemma trailing_from_byte:
  assumes "r < 4" and "j < r"
  shows "caller (trailing_bytes False m d s (of_nat r)) (d + j)
           = ucast (drop_bit (8 * j) (device m s))"
proof -
  consider "r = 1" "j = 0" | "r = 2" "j = 0" | "r = 2" "j = 1"
    | "r = 3" "j = 0" | "r = 3" "j = 1" | "r = 3" "j = 2"
    using assms by arith
  then show ?thesis
    by cases (simp_all add: trailing_bytes_def Let_def)
qed

text \<open>What each direction of the transfer does, byte by byte.\<close>

lemma tail_index:
  fixes i x :: nat
  assumes "\<not> i < 4 * (x div 4)" and "i < x"
  shows "i div 4 = x div 4" and "i mod 4 < x mod 4"
proof -
  have x: "4 * (x div 4) + x mod 4 = x" and i: "4 * (i div 4) + i mod 4 = i" by simp_all
  have "x < 4 * Suc (x div 4)" by (simp add: dividend_less_times_div)
  with assms(2) have "i < 4 * Suc (x div 4)" by (rule less_trans)
  moreover have "4 * (x div 4) \<le> i" using assms(1) by simp
  ultimately show q: "i div 4 = x div 4" by (intro div_nat_eqI) simp_all
  define a b where "a = i mod 4" and "b = x mod 4"
  have "4 * (x div 4) + a = i" "4 * (x div 4) + b = x"
    using x i q by (simp_all add: a_def b_def)
  then have "a < b" using assms(2) by simp
  then show "i mod 4 < x mod 4" by (simp add: a_def b_def)
qed

lemma to_device_bytes:
  assumes "i < unat sz"
  shows "buffer_byte (device (usbdev_transfer m d s sz True)) d i = caller m (s + i)"
proof (cases "i < 4 * (unat sz div 4)")
  case True
  then have k: "i div 4 < unat sz div 4" by simp
  then have ne: "d + 4 * (i div 4) \<noteq> d + 4 * (unat sz div 4)" by simp
  have "buffer_byte (device (usbdev_transfer m d s sz True)) d i =
      ucast (drop_bit (8 * (i mod 4)) (caller_word (caller m) (s + 4 * (i div 4))))"
    by (simp add: buffer_byte_def usbdev_transfer_copy_words trailing_to_other [OF ne]
        device_copy_words_to [OF k])
  also have "\<dots> = caller m (s + 4 * (i div 4) + i mod 4)"
    by (rule caller_word_byte) simp
  finally show ?thesis by (simp add: add.assoc)
next
  case False
  have r: "unat sz mod 4 < 4" by simp
  have q: "i div 4 = unat sz div 4" and j: "i mod 4 < unat sz mod 4"
    using tail_index [OF False assms] by simp_all
  have "buffer_byte (device (usbdev_transfer m d s sz True)) d i =
      caller (copy_words True (unat sz div 4) d s m) (s + 4 * (unat sz div 4) + i mod 4)"
    unfolding buffer_byte_def usbdev_transfer_copy_words q
    by (rule trailing_to_byte [OF r j])
  moreover have "4 * (unat sz div 4) + i mod 4 = i" using q [symmetric] by simp
  ultimately show ?thesis
    by (simp add: caller_copy_words_to add.assoc)
qed

lemma from_device_bytes:
  assumes "i < unat sz"
  shows "caller (usbdev_transfer m d s sz False) (d + i) = buffer_byte (device m) s i"
proof (cases "i < 4 * (unat sz div 4)")
  case True
  then have lt: "d + i < d + 4 * (unat sz div 4)" by simp
  show ?thesis
    by (simp add: usbdev_transfer_copy_words trailing_from_below [OF lt]
        caller_copy_words_from [OF True])
next
  case False
  have r: "unat sz mod 4 < 4" by simp
  have q: "i div 4 = unat sz div 4" and j: "i mod 4 < unat sz mod 4"
    using tail_index [OF False assms] by simp_all
  have "4 * (unat sz div 4) + i mod 4 = i" using q [symmetric] by simp
  then have e: "d + i = d + 4 * (unat sz div 4) + i mod 4" by (simp add: add.assoc)
  show ?thesis
    unfolding usbdev_transfer_copy_words e
    by (simp add: trailing_from_byte [OF r j] device_copy_words_from buffer_byte_def q)
qed

text \<open>
  Claim C1. For a size of at most 64 (the packet length) and any bytes in the caller's
  memory at \<open>data\<close>: after \<open>usbdev_transfer\<close> to the device, into the packet buffer at
  offset \<open>buf\<close>, the bytes of that buffer, least-significant byte first within each word,
  are the caller's bytes, up to \<open>size\<close>, also when the last word holds one to three of
  them; and a following \<open>usbdev_transfer\<close> from the device, from the same buffer to any
  address \<open>data'\<close> of any caller memory, leaves there the byte sequence that was sent.
\<close>

theorem word_transfer_roundtrip:
  "unat size' \<le> MaxPacketLen \<Longrightarrow>
     map (buffer_byte
            (device (usbdev_transfer \<lparr>device = dv, caller = bytes\<rparr> buf data size' True)) buf)
       [0..<unat size']
       = map (\<lambda>i. bytes (data + i)) [0..<unat size'] \<and>
     map (\<lambda>i. caller
            (usbdev_transfer
               \<lparr>device = device (usbdev_transfer \<lparr>device = dv, caller = bytes\<rparr>
                                   buf data size' True),
                caller = bytes'\<rparr>
               data' buf size' False) (data' + i))
       [0..<unat size']
       = map (\<lambda>i. bytes (data + i)) [0..<unat size']"
  by (simp add: to_device_bytes from_device_bytes)

theorem word_transfer_roundtrip_witness:
  "unat (5 :: u8) \<le> MaxPacketLen \<and>
   map (\<lambda>i. caller
          (usbdev_transfer
             \<lparr>device = device (usbdev_transfer \<lparr>device = (\<lambda>a. 0), caller = (\<lambda>a. of_nat a + 1)\<rparr>
                                 (buffers 1) 0 5 True),
              caller = (\<lambda>a. 0)\<rparr>
             0 (buffers 1) 5 False) (0 + i))
     [0..<unat (5 :: u8)]
     = [1, 2, 3, 4, 5]"
proof -
  have m: "unat (5 :: u8) \<le> MaxPacketLen" by (simp add: MaxPacketLen_def)
  note r = word_transfer_roundtrip [OF m, of "\<lambda>a. 0" "\<lambda>a. of_nat a + 1" "buffers 1" 0
      "\<lambda>a. 0" 0, THEN conjunct2]
  have g: "map (\<lambda>i. (of_nat (0 + i) + 1 :: u8)) [0..<unat (5 :: u8)] = [1, 2, 3, 4, 5]"
    by (simp add: upt_rec)
  show ?thesis
    unfolding r g using m by simp
qed

subsection \<open>Supplying buffers\<close>

declare supply_loop.simps [simp del]






















text \<open>
  A bit above bit 31 names no buffer. The skip and break paths of the loop hand such a bit
  back, but the mask \<open>~(1U << buf_num)\<close> is 32 bits wide and is zero-extended before it is
  combined with the 64-bit bitmap, so the bit is lost as soon as one buffer is assigned.
\<close>

lemma supply_buffers_bits_above_buffers:
  "fst (supply_buffers small_queues zeroed 0x100000000) = 0x100000000"
  "offered (accesses (snd (supply_buffers small_queues zeroed 0x100000001))) = [0]"
  "fst (supply_buffers small_queues zeroed 0x100000001) = 0"
  by code_simp+

end
